theory Spec2Isabelle
  imports Main "HOL-Library.Sublist"
begin

section \<open>The EDGAR daily-index notebook: string primitives\<close>

text \<open>
  The notebook works on Python \<open>str\<close> values with four built-in operations:
  \<open>sub in s\<close>, \<open>s.split(sep)\<close>, \<open>s.replace(old, new)\<close> and \<open>s.rpartition(sep)\<close>.
  Each is embedded as the left-to-right scan that Python performs. The separators the
  notebook passes are the non-empty literals \<open>'  '\<close>, \<open>'|'\<close>, \<open>'.txt'\<close>, \<open>'\n'\<close>, \<open>'-'\<close>
  and \<open>'/'\<close>; Python rejects an empty separator (ValueError), which no call site can
  produce, so the scans below simply never match one.
\<close>

datatype error = NameError | IndexError

text \<open>\<open>sub in s\<close>: \<open>sub\<close> occurs in \<open>s\<close> at some position.\<close>

fun contains :: "string \<Rightarrow> string \<Rightarrow> bool" where
  "contains sub [] = (sub = [])"
| "contains sub (c # cs) = (prefix sub (c # cs) \<or> contains sub cs)"

text \<open>
  \<open>s.split(sep)\<close>: cut at each occurrence of \<open>sep\<close> found scanning from the left, an
  occurrence starting only after the end of the one before it. The result always has at
  least one piece.
\<close>

function split :: "string \<Rightarrow> string \<Rightarrow> string list" where
  "split sep s =
     (if sep \<noteq> [] \<and> prefix sep s then [] # split sep (drop (length sep) s)
      else case s of
             [] \<Rightarrow> [[]]
           | c # cs \<Rightarrow> (case split sep cs of
                          [] \<Rightarrow> [[c]]
                        | w # ws \<Rightarrow> (c # w) # ws))"
  by pat_completeness auto
termination
  by (relation "measure (\<lambda>(sep, s). length s)") (auto simp: prefix_def)

text \<open>\<open>s.replace(old, new)\<close>: every occurrence found by the same scan is rewritten.\<close>

function replace :: "string \<Rightarrow> string \<Rightarrow> string \<Rightarrow> string" where
  "replace old new s =
     (if old \<noteq> [] \<and> prefix old s then new @ replace old new (drop (length old) s)
      else case s of
             [] \<Rightarrow> []
           | c # cs \<Rightarrow> c # replace old new cs)"
  by pat_completeness auto
termination
  by (relation "measure (\<lambda>(old, new, s). length s)") (auto simp: prefix_def)

text \<open>
  \<open>s.rpartition(sep)\<close> for a one-character separator: the text before the last
  occurrence, the separator, the text after it; \<open>('', '', s)\<close> when there is none.
\<close>

fun rpartition :: "char \<Rightarrow> string \<Rightarrow> string \<times> string \<times> string" where
  "rpartition sep [] = ([], [], [])"
| "rpartition sep (c # cs) =
     (if sep \<in> set cs then
        (case rpartition sep cs of (before, s, after) \<Rightarrow> (c # before, s, after))
      else if c = sep then ([], [sep], cs)
      else ([], [], c # cs))"

text \<open>
  \<open>xs[a:b]\<close>: a negative bound counts from the end, and both bounds are then clamped
  into \<open>0 .. len(xs)\<close>; the slice is empty when the bounds cross.
\<close>

definition py_slice :: "'a list \<Rightarrow> int \<Rightarrow> int \<Rightarrow> 'a list" where
  "py_slice xs a b =
     (let n = int (length xs);
          lo = (if a < 0 then max (a + n) 0 else min a n);
          hi = (if b < 0 then max (b + n) 0 else min b n)
      in take (nat (hi - lo)) (drop (nat lo) xs))"

section \<open>The URL builder\<close>

text \<open>
  \<^verbatim>\<open>
  def make_url(base_url , comp):
      url = base_url
      for r in comp:
          url = '{}/{}'.format(url, r)
      return url
  \<close>
\<close>

fun make_url :: "string \<Rightarrow> string list \<Rightarrow> string" where
  "make_url url [] = url"
| "make_url url (r # comps) = make_url (url @ ''/'' @ r) comps"

section \<open>Parsing the master index\<close>

definition sentinel :: string where
  "sentinel = ''ftp://ftp.sec.gov/edgar/''"

definition archives :: string where
  "archives = ''https://www.sec.gov/Archives/''"

text \<open>
  \<^verbatim>\<open>
  for index, item in enumerate(data):
      if "ftp://ftp.sec.gov/edgar/" in item:
          start_ind = index
  \<close>
  The loop runs to the end of \<open>data\<close>; \<open>start_ind\<close> is unbound (\<open>None\<close>) until the
  first assignment and is overwritten by every later one.
\<close>

fun find_start :: "string list \<Rightarrow> nat \<Rightarrow> nat option \<Rightarrow> nat option" where
  "find_start [] index start_ind = start_ind"
| "find_start (item # data) index start_ind =
     find_start data (Suc index) (if contains sentinel item then Some index else start_ind)"

text \<open>\<open>item.replace('\n','|').split('|')\<close>\<close>

definition tokens :: "string \<Rightarrow> string list" where
  "tokens item = split ''|'' (replace [CHR 0x0A] ''|'' item)"

text \<open>
  \<^verbatim>\<open>
  for index, row in enumerate(clean_item_data):
      if '.txt' in row:
          mini_list = clean_item_data[(index - 4): index + 1]
          if len(mini_list) != 0:
              mini_list[4] = "https://www.sec.gov/Archives/" + mini_list[4]
              master_data.append(mini_list)
  \<close>
  The second argument is the part of \<open>clean_item_data\<close> still to be visited, the third
  the position of its head. The assignment to \<open>mini_list[4]\<close> raises IndexError when
  the slice has fewer than five elements.
\<close>

fun scan_rows ::
  "string list \<Rightarrow> string list \<Rightarrow> nat \<Rightarrow> string list list \<Rightarrow> error + string list list" where
  "scan_rows clean_item_data [] index master_data = Inr master_data"
| "scan_rows clean_item_data (row # rest) index master_data =
     (if contains ''.txt'' row then
        (let mini_list = py_slice clean_item_data (int index - 4) (int index + 1) in
         if length mini_list \<noteq> 0 then
           (if length mini_list \<le> 4 then Inl IndexError
            else scan_rows clean_item_data rest (Suc index)
                   (master_data @ [mini_list[4 := archives @ mini_list ! 4]]))
         else scan_rows clean_item_data rest (Suc index) master_data)
      else scan_rows clean_item_data rest (Suc index) master_data)"

text \<open>
  \<^verbatim>\<open>
  for index, item in enumerate(data_format):
      if index == 0:
          clean_item_data = item.replace('\n','|').split('|')
          clean_item_data = clean_item_data[8:]
      else:
          clean_item_data = item.replace('\n','|').split('|')
      for index, row in enumerate(clean_item_data): ...
  \<close>
\<close>

definition clean_item :: "nat \<Rightarrow> string \<Rightarrow> string list" where
  "clean_item index item = (if index = 0 then drop 8 (tokens item) else tokens item)"

fun scan_chunks :: "string list \<Rightarrow> nat \<Rightarrow> string list list \<Rightarrow> error + string list list" where
  "scan_chunks [] index master_data = Inr master_data"
| "scan_chunks (item # data_format) index master_data =
     (let clean_item_data = clean_item index item in
      case scan_rows clean_item_data clean_item_data 0 master_data of
        Inl e \<Rightarrow> Inl e
      | Inr master_data' \<Rightarrow> scan_chunks data_format (Suc index) master_data')"

text \<open>
  The whole cell, from the decoded text to \<open>master_data\<close>:
  \<^verbatim>\<open>
  data = byte_data.decode("utf-8").split('  ')
  ...
  data_format = data[start_ind + 1:]
  master_data = []
  \<close>
  Reading \<open>start_ind\<close> while it is unbound raises NameError.
\<close>

definition parse :: "string \<Rightarrow> error + string list list" where
  "parse raw =
     (let data = split ''  '' raw in
      case find_start data 0 None of
        None \<Rightarrow> Inl NameError
      | Some start_ind \<Rightarrow> scan_chunks (drop (start_ind + 1) data) 0 [])"

section \<open>The document dictionaries\<close>

text \<open>
  The dictionary built for each filing has the five literal keys below and nothing else,
  so it is a record with one field per key.
\<close>

record document_dict =
  cik_number :: string
  company_name :: string
  form_id :: string
  date :: string
  file_url :: string

text \<open>
  \<^verbatim>\<open>
  document_dict = {}
  document_dict['cik_number'] = document[0]
  document_dict['company_name'] = document[1]
  document_dict['form_id'] = document[2]
  document_dict['date'] = document[3]
  document_dict['file_url'] = document[4]
  \<close>
  Indexing a list of fewer than five elements raises IndexError.
\<close>

definition to_document_dict :: "string list \<Rightarrow> error + document_dict" where
  "to_document_dict document =
     (if length document < 5 then Inl IndexError
      else Inr \<lparr>cik_number = document ! 0, company_name = document ! 1,
                form_id = document ! 2, date = document ! 3, file_url = document ! 4\<rparr>)"

text \<open>
  \<^verbatim>\<open>
  for index, document in enumerate(master_data):
      ...
      master_data[index] = document_dict
  \<close>
  Each position of \<open>master_data\<close> is overwritten by the dictionary of the list found
  there; the result below is the list after the loop.
\<close>

fun to_document_dicts :: "string list list \<Rightarrow> error + document_dict list" where
  "to_document_dicts [] = Inr []"
| "to_document_dicts (document # master_data) =
     (case to_document_dict document of
        Inl e \<Rightarrow> Inl e
      | Inr document_dict \<Rightarrow>
          (case to_document_dicts master_data of
             Inl e \<Rightarrow> Inl e
           | Inr dicts \<Rightarrow> Inr (document_dict # dicts)))"

section \<open>Filtering by form and deriving the related URLs\<close>

text \<open>
  \<^verbatim>\<open>
  for document_dict in master_data[0:100]:
      if document_dict['form_id'] == '10-K':
          comp_name = document_dict['company_name']
          docu_url = document_dict['file_url']
          print('-'*100); print(comp_name); print(docu_url)
  \<close>
  \<open>select_form\<close> is the loop body's test applied along a list, returning the
  dictionaries that reach the \<open>print\<close> calls, in the order they are printed. The form
  literal is a parameter; the notebook passes \<open>'10-K'\<close>. \<open>filter_by_form\<close> runs it over
  the slice \<open>master_data[0:100]\<close>.
\<close>

fun select_form :: "string \<Rightarrow> document_dict list \<Rightarrow> document_dict list" where
  "select_form form [] = []"
| "select_form form (document_dict # rest) =
     (if form_id document_dict = form then document_dict # select_form form rest
      else select_form form rest)"

definition filter_by_form :: "string \<Rightarrow> document_dict list \<Rightarrow> document_dict list" where
  "filter_by_form form master_data = select_form form (py_slice master_data 0 100)"

text \<open>
  \<^verbatim>\<open>
  file_url_adj = docu_url.split('.txt')
  file_url_archive = file_url_adj[0] + '-index.htm'
  \<close>
\<close>

definition file_url_archive :: "string \<Rightarrow> error + string" where
  "file_url_archive docu_url =
     (case split ''.txt'' docu_url of
        [] \<Rightarrow> Inl IndexError
      | first # _ \<Rightarrow> Inr (first @ ''-index.htm''))"

text \<open>\<^verbatim>\<open>archive_url = docu_url.replace('.txt','').replace('-','')\<close>\<close>

definition archive_url :: "string \<Rightarrow> string" where
  "archive_url docu_url = replace ''-'' '''' (replace ''.txt'' '''' docu_url)"

text \<open>\<^verbatim>\<open>company_url = docu_url.rpartition('/')\<close>; the notebook prints \<open>company_url[0]\<close>.\<close>

definition company_url :: "string \<Rightarrow> string \<times> string \<times> string" where
  "company_url docu_url = rpartition CHR ''/'' docu_url"

text \<open>
  The notebook's global variables that the last cell reads or assigns. \<open>comp_name\<close> and
  \<open>docu_url\<close> are unbound (\<open>None\<close>) until a 10-K dictionary is met.
\<close>

record globals =
  master_data :: "document_dict list"
  comp_name :: "string option"
  docu_url :: "string option"

fun assign_last :: "document_dict list \<Rightarrow> globals \<Rightarrow> globals" where
  "assign_last [] g = g"
| "assign_last (document_dict # rest) g =
     assign_last rest
       (g\<lparr>comp_name := Some (company_name document_dict),
          docu_url := Some (file_url document_dict)\<rparr>)"

text \<open>
  The last cell as a whole: the loop leaves \<open>comp_name\<close> and \<open>docu_url\<close> at the last
  10-K dictionary among the first hundred; the three derivations then read \<open>docu_url\<close>,
  which raises NameError while it is unbound. The result is the globals after the cell
  and the three printed URLs.
\<close>

definition cell_16 :: "globals \<Rightarrow> error + globals \<times> string \<times> string \<times> string" where
  "cell_16 g =
     (let g' = assign_last (filter_by_form ''10-K'' (master_data g)) g in
      case docu_url g' of
        None \<Rightarrow> Inl NameError
      | Some u \<Rightarrow>
          (case file_url_archive u of
             Inl e \<Rightarrow> Inl e
           | Inr detail \<Rightarrow> Inr (g', detail, archive_url u, fst (company_url u))))"

section \<open>Facts about the string primitives\<close>

text \<open>
  The defining equations of \<open>split\<close> and \<open>replace\<close> rewrite a call into itself, so they
  are taken out of the simplifier and replaced by one rule per case of the scan.
\<close>

declare split.simps [simp del] replace.simps [simp del]

lemma split_Nil [simp]: "split sep [] = [[]]"
  by (simp add: split.simps)

lemma split_not_Nil [simp]: "split sep s \<noteq> []"
  by (subst split.simps) (simp split: list.splits)

lemma split_match: "sep \<noteq> [] \<Longrightarrow> split sep (sep @ s) = [] # split sep s"
  by (subst split.simps) simp

lemma split_step:
  "\<not> (sep \<noteq> [] \<and> prefix sep (c # cs)) \<Longrightarrow>
     split sep (c # cs) = (c # hd (split sep cs)) # tl (split sep cs)"
  by (subst split.simps) (auto split: list.splits)

lemma split_nomatch:
  "\<not> prefix sep (c # cs) \<Longrightarrow> split sep (c # cs) = (c # hd (split sep cs)) # tl (split sep cs)"
  by (simp add: split_step)

lemma replace_Nil [simp]: "replace old new [] = []"
  by (simp add: replace.simps)

lemma replace_match: "old \<noteq> [] \<Longrightarrow> replace old new (old @ s) = new @ replace old new s"
  by (subst replace.simps) simp

lemma replace_nomatch:
  "\<not> prefix old (c # cs) \<Longrightarrow> replace old new (c # cs) = c # replace old new cs"
  by (subst replace.simps) simp

lemma contains_sublist: "contains sub s \<longleftrightarrow> sublist sub s"
  by (induction s) (simp_all add: sublist_Cons_right)

lemma contains_append_disjoint:
  "sub \<noteq> [] \<Longrightarrow> set sub \<inter> set xs = {} \<Longrightarrow> contains sub (xs @ s) \<longleftrightarrow> contains sub s"
proof (induction xs)
  case Nil
  then show ?case by simp
next
  case (Cons x xs)
  from Cons.prems obtain a sub' where sub: "sub = a # sub'" by (cases sub) auto
  with Cons.prems have "a \<noteq> x" by auto
  with sub have "\<not> prefix sub (x # xs @ s)" by simp
  with Cons show ?case by simp
qed

lemma prefix_hd_split:
  "sep \<noteq> [] \<Longrightarrow> set sub \<inter> set sep = {} \<Longrightarrow> prefix sub s \<Longrightarrow> prefix sub (hd (split sep s))"
proof (induction sub arbitrary: s)
  case Nil
  then show ?case by simp
next
  case (Cons a sub)
  from Cons.prems(3) obtain s' where s: "s = a # s'" and p: "prefix sub s'"
    by (cases s) auto
  from Cons.prems(1) obtain b sep' where sep: "sep = b # sep'" by (cases sep) auto
  with Cons.prems(2) have "a \<noteq> b" by auto
  with sep have "\<not> prefix sep (a # s')" by simp
  then have "hd (split sep (a # s')) = a # hd (split sep s')"
    by (simp add: split_nomatch)
  moreover have "prefix sub (hd (split sep s'))"
    using Cons.IH [OF Cons.prems(1) _ p] Cons.prems(2) by auto
  ultimately show ?case using s by simp
qed

lemma split_hd_prefix: "prefix (hd (split sep s)) s"
proof (induction sep s rule: split.induct)
  case (1 sep s)
  show ?case
  proof (cases "sep \<noteq> [] \<and> prefix sep s")
    case True
    then show ?thesis by (subst split.simps) simp
  next
    case False
    show ?thesis
    proof (cases s)
      case Nil
      then show ?thesis by simp
    next
      case (Cons c cs)
      with False have "split sep s = (c # hd (split sep cs)) # tl (split sep cs)"
        by (simp add: split_step)
      with 1(2) [OF False Cons] Cons show ?thesis by simp
    qed
  qed
qed

lemma split_sublist: "c \<in> set (split sep s) \<Longrightarrow> sublist c s"
proof (induction sep s arbitrary: c rule: split.induct)
  case (1 sep s)
  show ?case
  proof (cases "sep \<noteq> [] \<and> prefix sep s")
    case True
    with "1.prems" have "c = [] \<or> c \<in> set (split sep (drop (length sep) s))"
      by (subst (asm) split.simps) simp
    then show ?thesis
    proof
      assume "c = []" then show ?thesis by simp
    next
      assume "c \<in> set (split sep (drop (length sep) s))"
      then have "sublist c (drop (length sep) s)" by (rule "1.IH"(1) [OF True])
      moreover have "sublist (drop (length sep) s) s" by simp
      ultimately show ?thesis by (rule sublist_order.order_trans)
    qed
  next
    case False
    show ?thesis
    proof (cases s)
      case Nil
      with "1.prems" show ?thesis by simp
    next
      case (Cons x cs)
      with False have "split sep s = (x # hd (split sep cs)) # tl (split sep cs)"
        by (simp add: split_step)
      with "1.prems" have "c = x # hd (split sep cs) \<or> c \<in> set (tl (split sep cs))"
        by simp
      then show ?thesis
      proof
        assume "c = x # hd (split sep cs)"
        then have "prefix c s" using Cons split_hd_prefix [of sep cs] by simp
        then show ?thesis by simp
      next
        assume "c \<in> set (tl (split sep cs))"
        then have "c \<in> set (split sep cs)" by (meson list.set_sel(2) split_not_Nil)
        then have "sublist c cs" by (rule "1.IH"(2) [OF False Cons])
        then show ?thesis using Cons by (simp add: sublist_Cons_right)
      qed
    qed
  qed
qed

lemma contains_split_complete:
  "sep \<noteq> [] \<Longrightarrow> sub \<noteq> [] \<Longrightarrow> set sub \<inter> set sep = {} \<Longrightarrow> contains sub s \<Longrightarrow>
     \<exists>c\<in>set (split sep s). contains sub c"
proof (induction sep s rule: split.induct)
  case (1 sep s)
  show ?case
  proof (cases "prefix sep s")
    case True
    then obtain s' where s: "s = sep @ s'" by (auto simp: prefix_def)
    with "1.prems" have "contains sub s'" by (simp add: contains_append_disjoint)
    with "1.IH"(1) "1.prems" True s have "\<exists>c\<in>set (split sep s'). contains sub c" by simp
    then show ?thesis using s "1.prems"(1) by (simp add: split_match)
  next
    case False
    show ?thesis
    proof (cases s)
      case Nil
      with "1.prems" show ?thesis by simp
    next
      case (Cons x cs)
      with False have sp: "split sep s = (x # hd (split sep cs)) # tl (split sep cs)"
        by (simp add: split_nomatch)
      from "1.prems"(4) Cons consider "prefix sub (x # cs)" | "contains sub cs" by auto
      then show ?thesis
      proof cases
        case 1
        then have "prefix sub (hd (split sep s))"
          using prefix_hd_split "1.prems" Cons by blast
        then have "contains sub (hd (split sep s))" by (simp add: contains_sublist)
        then show ?thesis using sp by simp
      next
        case 2
        with "1.IH"(2) [OF _ Cons] False "1.prems" obtain c where
          c: "c \<in> set (split sep cs)" "contains sub c" by auto
        show ?thesis
        proof (cases "c = hd (split sep cs)")
          case True
          with c(2) have "contains sub (x # hd (split sep cs))" by simp
          then show ?thesis using sp by simp
        next
          case False
          with c(1) have "c \<in> set (tl (split sep cs))"
            by (cases "split sep cs") auto
          with c(2) show ?thesis using sp by auto
        qed
      qed
    qed
  qed
qed

lemma replace_step:
  "\<not> (old \<noteq> [] \<and> prefix old (c # cs)) \<Longrightarrow> replace old new (c # cs) = c # replace old new cs"
  by (subst replace.simps) auto

lemma replace_dash_filter: "replace ''-'' '''' s = filter (\<lambda>c. c \<noteq> CHR ''-'') s"
proof (induction s)
  case Nil
  show ?case by simp
next
  case (Cons c cs)
  show ?case
  proof (cases "c = CHR ''-''")
    case True
    have "replace ''-'' '''' (''-'' @ cs) = '''' @ replace ''-'' '''' cs"
      by (rule replace_match) simp
    with True Cons show ?thesis by simp
  next
    case False
    then have "\<not> prefix ''-'' (c # cs)" by simp
    then have "replace ''-'' '''' (c # cs) = c # replace ''-'' '''' cs"
      by (rule replace_nomatch)
    with False Cons show ?thesis by simp
  qed
qed

lemma prefix_across_char:
  assumes "c \<notin> set old" and "prefix old (xs @ c # ys)"
  shows "prefix old xs"
proof -
  from assms(2) have "prefix old xs \<or> (\<exists>us. old = xs @ us \<and> prefix us (c # ys))"
    by (simp add: prefix_append)
  then show ?thesis
  proof
    assume "prefix old xs" then show ?thesis .
  next
    assume "\<exists>us. old = xs @ us \<and> prefix us (c # ys)"
    then obtain us where us: "old = xs @ us" "prefix us (c # ys)" by blast
    show ?thesis
    proof (cases us)
      case Nil
      with us show ?thesis by simp
    next
      case (Cons u us')
      with us(2) have "u = c" by simp
      with us(1) Cons assms(1) show ?thesis by simp
    qed
  qed
qed

lemma replace_append_char:
  "c \<notin> set old \<Longrightarrow> replace old new (xs @ c # ys) = replace old new xs @ c # replace old new ys"
proof (induction old new xs rule: replace.induct)
  case (1 old new xs)
  show ?case
  proof (cases "old \<noteq> [] \<and> prefix old xs")
    case True
    then obtain rest where xs: "xs = old @ rest" by (auto simp: prefix_def)
    with True "1.IH"(1) "1.prems"
    have "replace old new (rest @ c # ys) = replace old new rest @ c # replace old new ys"
      by simp
    moreover have "replace old new ((old @ rest) @ c # ys) = new @ replace old new (rest @ c # ys)"
      using True by (simp add: replace_match)
    moreover have "replace old new (old @ rest) = new @ replace old new rest"
      using True by (simp add: replace_match)
    ultimately show ?thesis using xs by simp
  next
    case False
    show ?thesis
    proof (cases xs)
      case Nil
      from "1.prems" have "\<not> (old \<noteq> [] \<and> prefix old (c # ys))" by (cases old) auto
      then have "replace old new (c # ys) = c # replace old new ys"
        by (rule replace_step)
      with Nil show ?thesis by simp
    next
      case (Cons x xs')
      have np: "\<not> (old \<noteq> [] \<and> prefix old (x # xs' @ c # ys))"
      proof
        assume a: "old \<noteq> [] \<and> prefix old (x # xs' @ c # ys)"
        then have "prefix old ((x # xs') @ c # ys)" by simp
        with "1.prems" have "prefix old (x # xs')" by (rule prefix_across_char)
        with a False Cons show False by simp
      qed
      have l: "replace old new (x # xs' @ c # ys) = x # replace old new (xs' @ c # ys)"
        using np by (rule replace_step)
      have r: "replace old new (x # xs') = x # replace old new xs'"
        using False Cons by (simp add: replace_step)
      from "1.IH"(2) [OF False Cons "1.prems"] l r Cons show ?thesis by simp
    qed
  qed
qed

lemma replace_txt_stem:
  "CHR ''.'' \<notin> set name \<Longrightarrow> replace ''.txt'' '''' (name @ ''.txt'') = name"
proof (induction name)
  case Nil
  have "replace ''.txt'' '''' (''.txt'' @ []) = '''' @ replace ''.txt'' '''' []"
    by (rule replace_match) simp
  then show ?case by simp
next
  case (Cons c cs)
  then have "\<not> prefix ''.txt'' (c # cs @ ''.txt'')" by simp
  then have "replace ''.txt'' '''' (c # cs @ ''.txt'') = c # replace ''.txt'' '''' (cs @ ''.txt'')"
    by (rule replace_nomatch)
  with Cons show ?case by simp
qed

section \<open>Facts about the header scan and the record scan\<close>

lemma find_start_append:
  "find_start (xs @ ys) k acc = find_start ys (k + length xs) (find_start xs k acc)"
  by (induction xs arbitrary: k acc) simp_all

lemma find_start_none:
  "\<forall>x\<in>set data. \<not> contains sentinel x \<Longrightarrow> find_start data k acc = acc"
  by (induction data arbitrary: k) simp_all

lemma find_start_last:
  assumes "i < length data" and "contains sentinel (data ! i)"
    and "\<forall>x\<in>set (drop (Suc i) data). \<not> contains sentinel x"
  shows "find_start data k acc = Some (k + i)"
proof -
  have d: "data = take i data @ data ! i # drop (Suc i) data"
    using assms(1) by (simp add: id_take_nth_drop)
  have "find_start data k acc =
        find_start (data ! i # drop (Suc i) data) (k + length (take i data)) (find_start (take i data) k acc)"
    by (subst d, subst find_start_append) simp
  also have "\<dots> = Some (k + i)"
    using assms by (simp add: find_start_none)
  finally show ?thesis .
qed

lemma find_start_some:
  "find_start data k None = Some n \<Longrightarrow>
     \<exists>i. n = k + i \<and> i < length data \<and> contains sentinel (data ! i)
       \<and> (\<forall>x\<in>set (drop (Suc i) data). \<not> contains sentinel x)"
proof (induction data arbitrary: n rule: rev_induct)
  case Nil
  then show ?case by simp
next
  case (snoc x xs)
  show ?case
  proof (cases "contains sentinel x")
    case True
    with snoc.prems have "n = k + length xs" by (simp add: find_start_append)
    with True show ?thesis by (intro exI [of _ "length xs"]) simp
  next
    case False
    with snoc.prems have "find_start xs k None = Some n" by (simp add: find_start_append)
    from snoc.IH [OF this] obtain i where i: "n = k + i" "i < length xs"
      "contains sentinel (xs ! i)" "\<forall>x\<in>set (drop (Suc i) xs). \<not> contains sentinel x"
      by blast
    with False show ?thesis
      by (intro exI [of _ i]) (simp add: nth_append)
  qed
qed

lemma find_start_None_iff:
  "find_start data k None = None \<longleftrightarrow> (\<forall>x\<in>set data. \<not> contains sentinel x)"
proof
  assume n: "find_start data k None = None"
  show "\<forall>x\<in>set data. \<not> contains sentinel x"
  proof (rule ccontr)
    assume "\<not> (\<forall>x\<in>set data. \<not> contains sentinel x)"
    then obtain x where "x \<in> set data" "contains sentinel x" by blast
    then obtain xs ys where "data = xs @ x # ys" by (auto simp: in_set_conv_decomp)
    with \<open>contains sentinel x\<close> n have "find_start ys (Suc (k + length xs)) (Some (k + length xs)) = None"
      by (simp add: find_start_append)
    moreover have "\<And>ys j a. find_start ys j (Some a) \<noteq> None"
    proof -
      fix ys :: "string list" and j a
      show "find_start ys j (Some a) \<noteq> None"
        by (induction ys arbitrary: j a) simp_all
    qed
    ultimately show False by blast
  qed
qed (simp add: find_start_none)

text \<open>One step of the record scan, with the window named.\<close>

lemma scan_rows_skip:
  "\<not> contains ''.txt'' row \<or> py_slice c (int k - 4) (int k + 1) = [] \<Longrightarrow>
     scan_rows c (row # rest) k m = scan_rows c rest (Suc k) m"
  by (auto simp: Let_def)

lemma scan_rows_raise:
  "contains ''.txt'' row \<Longrightarrow> py_slice c (int k - 4) (int k + 1) \<noteq> [] \<Longrightarrow>
   length (py_slice c (int k - 4) (int k + 1)) \<le> 4 \<Longrightarrow>
     scan_rows c (row # rest) k m = Inl IndexError"
  by (simp add: Let_def)

lemma scan_rows_emit:
  "contains ''.txt'' row \<Longrightarrow> 4 < length (py_slice c (int k - 4) (int k + 1)) \<Longrightarrow>
     scan_rows c (row # rest) k m =
       scan_rows c rest (Suc k)
         (m @ [(py_slice c (int k - 4) (int k + 1))[4 := archives @ py_slice c (int k - 4) (int k + 1) ! 4]])"
  by (auto simp: Let_def)

lemma scan_rows_cases:
  obtains (skip) "scan_rows c (row # rest) k m = scan_rows c rest (Suc k) m"
  | (raise) "scan_rows c (row # rest) k m = Inl IndexError"
  | (emit) "contains ''.txt'' row" "length (py_slice c (int k - 4) (int k + 1)) = 5"
      "scan_rows c (row # rest) k m =
         scan_rows c rest (Suc k)
           (m @ [(py_slice c (int k - 4) (int k + 1))[4 := archives @ py_slice c (int k - 4) (int k + 1) ! 4]])"
proof -
  let ?w = "py_slice c (int k - 4) (int k + 1)"
  have le: "length ?w \<le> 5" by (auto simp: py_slice_def Let_def min_def max_def)
  consider "\<not> contains ''.txt'' row \<or> ?w = []"
    | "contains ''.txt'' row" "?w \<noteq> []" "length ?w \<le> 4"
    | "contains ''.txt'' row" "4 < length ?w"
    by fastforce
  then show thesis
  proof cases
    case 1
    then show ?thesis using skip scan_rows_skip by blast
  next
    case 2
    then show ?thesis using raise scan_rows_raise by blast
  next
    case 3
    with le have "length ?w = 5" by simp
    with 3 show ?thesis using emit scan_rows_emit by blast
  qed
qed

lemma scan_rows_not_NameError: "scan_rows c rest k m \<noteq> Inl NameError"
proof (induction rest arbitrary: k m)
  case Nil
  show ?case by simp
next
  case (Cons row rest)
  show ?case
  proof (cases rule: scan_rows_cases [of c row rest k m])
    case skip
    show ?thesis unfolding skip by (rule Cons)
  next
    case raise
    show ?thesis unfolding raise by simp
  next
    case emit
    show ?thesis unfolding emit(3) by (rule Cons)
  qed
qed

lemma scan_chunks_not_NameError: "scan_chunks d k m \<noteq> Inl NameError"
proof (induction d arbitrary: k m)
  case Nil
  show ?case by simp
next
  case (Cons item d)
  show ?case
  proof (cases "scan_rows (clean_item k item) (clean_item k item) 0 m")
    case (Inl e)
    with scan_rows_not_NameError [of "clean_item k item" "clean_item k item" 0 m]
    show ?thesis by simp
  next
    case (Inr m')
    with Cons show ?thesis by simp
  qed
qed

lemma scan_rows_no_txt:
  "\<forall>row\<in>set rest. \<not> contains ''.txt'' row \<Longrightarrow> scan_rows c rest k m = Inr m"
  by (induction rest arbitrary: k) simp_all

lemma scan_chunks_no_txt:
  "\<forall>item\<in>set d. \<forall>row\<in>set (tokens item). \<not> contains ''.txt'' row \<Longrightarrow> scan_chunks d k m = Inr m"
proof (induction d arbitrary: k)
  case Nil
  then show ?case by simp
next
  case (Cons item d)
  have "\<forall>row\<in>set (clean_item k item). \<not> contains ''.txt'' row"
    using Cons.prems by (auto simp: clean_item_def dest: in_set_dropD)
  then have "scan_rows (clean_item k item) (clean_item k item) 0 m = Inr m"
    by (rule scan_rows_no_txt)
  with Cons show ?case by simp
qed

lemma scan_rows_five:
  "scan_rows c rest k m = Inr m' \<Longrightarrow> \<forall>r\<in>set m. length r = 5 \<Longrightarrow> \<forall>r\<in>set m'. length r = 5"
proof (induction rest arbitrary: k m)
  case Nil
  then show ?case by simp
next
  case (Cons row rest)
  show ?case
  proof (cases rule: scan_rows_cases [of c row rest k m])
    case skip
    with Cons.prems(1) have "scan_rows c rest (Suc k) m = Inr m'" by simp
    then show ?thesis using Cons.prems(2) by (rule Cons.IH)
  next
    case raise
    with Cons.prems(1) show ?thesis by simp
  next
    case emit
    let ?w = "py_slice c (int k - 4) (int k + 1)"
    from emit(3) Cons.prems(1)
    have "scan_rows c rest (Suc k) (m @ [?w[4 := archives @ ?w ! 4]]) = Inr m'" by simp
    moreover have "\<forall>r\<in>set (m @ [?w[4 := archives @ ?w ! 4]]). length r = 5"
      using Cons.prems(2) emit(2) by simp
    ultimately show ?thesis by (rule Cons.IH)
  qed
qed

lemma scan_chunks_five:
  "scan_chunks d k m = Inr m' \<Longrightarrow> \<forall>r\<in>set m. length r = 5 \<Longrightarrow> \<forall>r\<in>set m'. length r = 5"
proof (induction d arbitrary: k m)
  case Nil
  then show ?case by simp
next
  case (Cons item d)
  show ?case
  proof (cases "scan_rows (clean_item k item) (clean_item k item) 0 m")
    case (Inl e)
    with Cons.prems(1) show ?thesis by simp
  next
    case (Inr m1)
    then have five: "\<forall>r\<in>set m1. length r = 5" using Cons.prems(2) by (rule scan_rows_five)
    from Inr Cons.prems(1) have "scan_chunks d (Suc k) m1 = Inr m'" by simp
    then show ?thesis using five by (rule Cons.IH)
  qed
qed

lemma parse_five:
  assumes "parse raw = Inr rows" shows "\<forall>r\<in>set rows. length r = 5"
proof (cases "find_start (split ''  '' raw) 0 None")
  case None
  with assms show ?thesis by (simp add: parse_def)
next
  case (Some i)
  with assms have "scan_chunks (drop (i + 1) (split ''  '' raw)) 0 [] = Inr rows"
    by (simp add: parse_def)
  then show ?thesis by (rule scan_chunks_five) simp
qed

text \<open>The sentinel holds no blank, so it lies in the raw text exactly when it lies in one chunk.\<close>

lemma sentinel_in_chunk_iff:
  "(\<exists>c\<in>set (split ''  '' raw). contains sentinel c) \<longleftrightarrow> contains sentinel raw"
proof
  assume "\<exists>c\<in>set (split ''  '' raw). contains sentinel c"
  then obtain c where "c \<in> set (split ''  '' raw)" "sublist sentinel c"
    by (auto simp: contains_sublist)
  then have "sublist sentinel raw"
    using split_sublist sublist_order.order_trans by blast
  then show "contains sentinel raw" by (simp add: contains_sublist)
next
  assume "contains sentinel raw"
  moreover have "set sentinel \<inter> set ''  '' = {}" by (simp add: sentinel_def)
  moreover have "sentinel \<noteq> []" by (simp add: sentinel_def)
  ultimately show "\<exists>c\<in>set (split ''  '' raw). contains sentinel c"
    using contains_split_complete [of "''  ''" sentinel raw] by simp
qed

section \<open>Facts about the derived URLs\<close>

lemma archive_url_filter:
  "archive_url ref = filter (\<lambda>c. c \<noteq> CHR ''-'') (replace ''.txt'' '''' ref)"
  by (simp add: archive_url_def replace_dash_filter)

lemma archive_url_shape:
  assumes "CHR ''.'' \<notin> set name"
  shows "archive_url (folder @ ''/'' @ name @ ''.txt'')
           = archive_url folder @ ''/'' @ filter (\<lambda>c. c \<noteq> CHR ''-'') name"
proof -
  have "replace ''.txt'' '''' (folder @ CHR ''/'' # (name @ ''.txt''))
          = replace ''.txt'' '''' folder @ CHR ''/'' # replace ''.txt'' '''' (name @ ''.txt'')"
    by (rule replace_append_char) simp
  with assms show ?thesis by (simp add: archive_url_filter replace_txt_stem)
qed

lemma not_suffix_txt:
  assumes "CHR ''.'' \<notin> set name"
  shows "\<not> suffix ''.txt'' (pre @ ''/'' @ name)"
proof
  assume "suffix ''.txt'' (pre @ ''/'' @ name)"
  then have "suffix ''.txt'' (''/'' @ name) \<or> (\<exists>xs'. ''.txt'' = xs' @ ''/'' @ name \<and> suffix xs' pre)"
    by (simp add: suffix_append)
  then show False
  proof
    assume "suffix ''.txt'' (''/'' @ name)"
    then have "''.txt'' = ''/'' @ name \<or> suffix ''.txt'' name" by (simp add: suffix_Cons)
    then have "suffix ''.txt'' name" by auto
    then have "set ''.txt'' \<subseteq> set name" by (rule set_mono_suffix)
    with assms show False by simp
  next
    assume "\<exists>xs'. ''.txt'' = xs' @ ''/'' @ name \<and> suffix xs' pre"
    then obtain xs' where "''.txt'' = xs' @ ''/'' @ name" by blast
    then have "set ''.txt'' = set (xs' @ ''/'' @ name)" by simp
    then have "CHR ''/'' \<in> set ''.txt''" by (metis in_set_conv_decomp append_Cons append_Nil)
    then show False by simp
  qed
qed

lemma split_txt_stem:
  "\<not> contains ''.txt'' stem \<Longrightarrow> split ''.txt'' (stem @ ''.txt'' @ rest) = stem # split ''.txt'' rest"
proof (induction stem)
  case Nil
  have "split ''.txt'' (''.txt'' @ rest) = [] # split ''.txt'' rest"
    by (rule split_match) simp
  then show ?case by simp
next
  case (Cons c cs)
  from Cons.prems have np: "\<not> prefix ''.txt'' (c # cs)" and nc: "\<not> contains ''.txt'' cs"
    by simp_all
  have "\<not> prefix ''.txt'' ((c # cs) @ CHR ''.'' # (''txt'' @ rest))"
  proof
    assume "prefix ''.txt'' ((c # cs) @ CHR ''.'' # (''txt'' @ rest))"
    then have "prefix ''.txt'' (c # cs) \<or> (\<exists>us. ''.txt'' = (c # cs) @ us \<and> prefix us (CHR ''.'' # (''txt'' @ rest)))"
      by (simp only: prefix_append)
    with np obtain us where us: "''.txt'' = (c # cs) @ us" "prefix us (CHR ''.'' # (''txt'' @ rest))"
      by blast
    show False
    proof (cases us)
      case Nil
      with us(1) np show False by simp
    next
      case (Cons u us')
      with us(2) have "u = CHR ''.''" by simp
      with us(1) Cons have "''txt'' = cs @ CHR ''.'' # us'" by simp
      then have "CHR ''.'' \<in> set ''txt''" by (metis in_set_conv_decomp)
      then show False by simp
    qed
  qed
  then have "split ''.txt'' (c # cs @ ''.txt'' @ rest)
             = (c # hd (split ''.txt'' (cs @ ''.txt'' @ rest))) # tl (split ''.txt'' (cs @ ''.txt'' @ rest))"
    by (simp add: split_nomatch)
  with Cons.IH [OF nc] show ?case by simp
qed

lemma file_url_archive_total: "\<exists>u. file_url_archive ref = Inr u"
  by (cases "split ''.txt'' ref") (simp_all add: file_url_archive_def)

lemma rpartition_append:
  "sep \<notin> set file \<Longrightarrow> rpartition sep (base @ sep # file) = (base, [sep], file)"
  by (induction base) simp_all

lemma rpartition_decomp:
  "sep \<in> set s \<Longrightarrow> \<exists>base file. s = base @ sep # file \<and> sep \<notin> set file"
  by (metis split_list_last)

lemma select_form_filter: "select_form form ds = filter (\<lambda>d. form_id d = form) ds"
  by (induction ds) simp_all

lemma py_slice_first_hundred: "py_slice xs 0 100 = take 100 xs"
  by (simp add: py_slice_def Let_def min_def)

lemma filter_by_form_filter:
  "filter_by_form form recs = filter (\<lambda>d. form_id d = form) (take 100 recs)"
  by (simp add: filter_by_form_def select_form_filter py_slice_first_hundred)

lemma assign_last_master_data: "master_data (assign_last ds g) = master_data g"
  by (induction ds arbitrary: g) simp_all

lemma to_document_dicts_map:
  "\<forall>r\<in>set rows. length r = 5 \<Longrightarrow>
     to_document_dicts rows =
       Inr (map (\<lambda>document. \<lparr>cik_number = document ! 0, company_name = document ! 1,
                  form_id = document ! 2, date = document ! 3, file_url = document ! 4\<rparr>) rows)"
  by (induction rows) (simp_all add: to_document_dict_def)

lemma company_url_append:
  "CHR ''/'' \<notin> set fname \<Longrightarrow> fst (company_url (base @ ''/'' @ fname)) = base"
  by (simp add: company_url_def rpartition_append)

lemma cell_16_master_data:
  assumes "cell_16 g = Inr (g', urls)"
  shows "master_data g' = master_data g"
proof -
  let ?g = "assign_last (filter_by_form ''10-K'' (master_data g)) g"
  from assms have "g' = ?g"
    by (auto simp: cell_16_def Let_def split: option.splits sum.splits)
  then show ?thesis by (simp add: assign_last_master_data)
qed

section \<open>Where the data section starts\<close>

text \<open>
  C1 (as amended). The raw text is split on the double blank into ordered chunks, and the
  LAST chunk that contains the sentinel \<open>ftp://ftp.sec.gov/edgar/\<close> ends the header: the
  scan keeps overwriting \<open>start_ind\<close>, so every chunk at or before the last sentinel chunk
  is discarded and record extraction runs over the chunks after it. When only one chunk
  holds the sentinel, that chunk is also the first one.
\<close>

theorem C1_data_starts_after_last_sentinel:
  assumes "i < length (split ''  '' raw)"
    and "contains sentinel (split ''  '' raw ! i)"
    and "\<forall>x\<in>set (drop (Suc i) (split ''  '' raw)). \<not> contains sentinel x"
  shows "find_start (split ''  '' raw) 0 None = Some i
         \<and> parse raw = scan_chunks (drop (i + 1) (split ''  '' raw)) 0 []"
proof -
  have "find_start (split ''  '' raw) 0 None = Some (0 + i)"
    using assms by (rule find_start_last)
  then show ?thesis by (simp add: parse_def)
qed

theorem C1_data_starts_after_last_sentinel_witness:
  "parse ''ftp://ftp.sec.gov/edgar/  a  ftp://ftp.sec.gov/edgar/  b  c''
     = scan_chunks [''b'', ''c''] 0 []"
proof -
  let ?raw = "''ftp://ftp.sec.gov/edgar/  a  ftp://ftp.sec.gov/edgar/  b  c''"
  have s: "split ''  '' ?raw = [''ftp://ftp.sec.gov/edgar/'', ''a'', ''ftp://ftp.sec.gov/edgar/'', ''b'', ''c'']"
    by code_simp
  have h1: "2 < length (split ''  '' ?raw)" by (simp add: s)
  have h2: "contains sentinel (split ''  '' ?raw ! 2)" unfolding s by code_simp
  have h3: "\<forall>x\<in>set (drop (Suc 2) (split ''  '' ?raw)). \<not> contains sentinel x"
    unfolding s by code_simp
  show ?thesis
    using C1_data_starts_after_last_sentinel [OF h1 h2 h3] by (simp add: s)
qed

text \<open>
  C1 as stated fails when two chunks hold the sentinel. Below, chunk 0 holds it and a
  complete row follows; starting after that first chunk would yield the row, but the
  notebook starts after the second sentinel chunk and yields nothing.
\<close>

theorem C1_first_sentinel_counterexample:
  "contains sentinel
     (split ''  '' ''ftp://ftp.sec.gov/edgar/  h|h|h|h|h|h|h|h|1|A|4|20190401|a.txt  ftp://ftp.sec.gov/edgar/  x'' ! 0)
   \<and> scan_chunks (drop 1 (split ''  ''
        ''ftp://ftp.sec.gov/edgar/  h|h|h|h|h|h|h|h|1|A|4|20190401|a.txt  ftp://ftp.sec.gov/edgar/  x'')) 0 []
       = Inr [[''1'', ''A'', ''4'', ''20190401'', ''https://www.sec.gov/Archives/a.txt'']]
   \<and> parse ''ftp://ftp.sec.gov/edgar/  h|h|h|h|h|h|h|h|1|A|4|20190401|a.txt  ftp://ftp.sec.gov/edgar/  x''
       = Inr []"
  by code_simp

section \<open>Short windows\<close>

text \<open>
  C2 (the code departs from the claim). A \<open>.txt\<close> token at position \<open>index < 4\<close> makes
  the slice start negative. In a chunk of five or more tokens the slice is then empty and
  the \<open>len(mini_list) != 0\<close> guard skips it, as the claim says. In a chunk of at most four
  tokens the negative start wraps to the front, the slice has one to four elements, the
  guard lets it through and \<open>mini_list[4]\<close> raises IndexError: parse fails. Here the third
  chunk after the header is \<open>DANIEL|4|20190401|edgar/...txt\<close>, four tokens.
\<close>

theorem C2_short_chunk_raises:
  "parse ''ftp://ftp.sec.gov/edgar/  x  1236397|BRADBURY  DANIEL|4|20190401|edgar/data/1236397/0000886744-19-000047.txt''
     = Inl IndexError"
  by code_simp

section \<open>When parsing fails\<close>




section \<open>The sample row\<close>

text \<open>
  C4 (as amended). The first chunk after the header loses its first eight tokens, so the
  sample row is returned when the sentinel is followed by the double blank, eight
  leftover tokens and then the row: parse returns exactly one filing, with CIK
  \<open>1236397\<close>, form \<open>4\<close>, date \<open>20190401\<close> and the row's path prefixed with
  \<open>https://www.sec.gov/Archives/\<close>.
\<close>

theorem C4_row_after_eight_tokens:
  "parse ''ftp://ftp.sec.gov/edgar/  h1|h2|h3|h4|h5|h6|h7|h8|1236397|BRADBURY DANIEL|4|20190401|edgar/data/1236397/0000886744-19-000047.txt''
     = Inr [[''1236397'', ''BRADBURY DANIEL'', ''4'', ''20190401'',
             archives @ ''edgar/data/1236397/0000886744-19-000047.txt'']]"
  by code_simp

text \<open>
  C4 as stated fails: with the row directly after the sentinel, after a line break, or
  after the double blank, parse returns no filing. In the first two inputs the row lies
  in the sentinel's own chunk, in the third it is consumed by the eight-token drop.
\<close>

theorem C4_sentinel_then_row_counterexample:
  "parse ''ftp://ftp.sec.gov/edgar/1236397|BRADBURY DANIEL|4|20190401|edgar/data/1236397/0000886744-19-000047.txt'' = Inr []
   \<and> parse (''ftp://ftp.sec.gov/edgar/'' @ [CHR 0x0A] @ ''1236397|BRADBURY DANIEL|4|20190401|edgar/data/1236397/0000886744-19-000047.txt'') = Inr []
   \<and> parse ''ftp://ftp.sec.gov/edgar/  1236397|BRADBURY DANIEL|4|20190401|edgar/data/1236397/0000886744-19-000047.txt'' = Inr []"
  by code_simp

section \<open>The archive folder URL\<close>

text \<open>
  C5 (as amended). The archive folder URL is the document URL with the \<open>.txt\<close>
  occurrences found by the left-to-right scan removed and then every \<open>-\<close> removed, and
  it never contains a \<open>-\<close>. For a document URL \<open>FOLDER/NAME.txt\<close> whose file name \<open>NAME\<close>
  holds no dot, the result is the folder's own image, a \<open>/\<close>, and \<open>NAME\<close> without its
  dashes, and it does not end in \<open>.txt\<close>. The sample URL ending in
  \<open>1239188/0001144204-19-017485.txt\<close> yields one ending in \<open>1239188/000114420419017485\<close>.
\<close>

theorem C5_archive_url:
  "archive_url ref = filter (\<lambda>c. c \<noteq> CHR ''-'') (replace ''.txt'' '''' ref)
   \<and> CHR ''-'' \<notin> set (archive_url ref)
   \<and> (\<forall>folder name. ref = folder @ ''/'' @ name @ ''.txt'' \<and> CHR ''.'' \<notin> set name \<longrightarrow>
         archive_url ref = archive_url folder @ ''/'' @ filter (\<lambda>c. c \<noteq> CHR ''-'') name
         \<and> \<not> suffix ''.txt'' (archive_url ref))
   \<and> archive_url ''https://www.sec.gov/Archives/edgar/data/1239188/0001144204-19-017485.txt''
        = ''https://www.sec.gov/Archives/edgar/data/1239188/000114420419017485''"
proof -
  have a: "archive_url ref = filter (\<lambda>c. c \<noteq> CHR ''-'') (replace ''.txt'' '''' ref)"
    by (rule archive_url_filter)
  have b: "CHR ''-'' \<notin> set (archive_url ref)"
    by (simp add: archive_url_filter)
  have c: "archive_url ref = archive_url folder @ ''/'' @ filter (\<lambda>c. c \<noteq> CHR ''-'') name
           \<and> \<not> suffix ''.txt'' (archive_url ref)"
    if "ref = folder @ ''/'' @ name @ ''.txt''" "CHR ''.'' \<notin> set name" for folder name
  proof -
    have s: "archive_url ref = archive_url folder @ ''/'' @ filter (\<lambda>c. c \<noteq> CHR ''-'') name"
      using that archive_url_shape by simp
    have "CHR ''.'' \<notin> set (filter (\<lambda>c. c \<noteq> CHR ''-'') name)" using that(2) by simp
    then have "\<not> suffix ''.txt'' (archive_url folder @ ''/'' @ filter (\<lambda>c. c \<noteq> CHR ''-'') name)"
      by (rule not_suffix_txt)
    with s show ?thesis by simp
  qed
  have d: "archive_url ''https://www.sec.gov/Archives/edgar/data/1239188/0001144204-19-017485.txt''
        = ''https://www.sec.gov/Archives/edgar/data/1239188/000114420419017485''"
    by code_simp
  from a b c d show ?thesis by blast
qed

theorem C5_archive_url_witness:
  "archive_url (''https://www.sec.gov/Archives/edgar/data/1263364'' @ ''/'' @ ''0001213900-19-005388'' @ ''.txt'')
     = ''https://www.sec.gov/Archives/edgar/data/1263364/000121390019005388''
   \<and> \<not> suffix ''.txt''
         (archive_url (''https://www.sec.gov/Archives/edgar/data/1263364'' @ ''/'' @ ''0001213900-19-005388'' @ ''.txt''))"
proof -
  let ?folder = "''https://www.sec.gov/Archives/edgar/data/1263364''"
  let ?name = "''0001213900-19-005388''"
  have n: "CHR ''.'' \<notin> set ?name" by simp
  have f: "archive_url ?folder = ''https://www.sec.gov/Archives/edgar/data/1263364''" by code_simp
  have g: "filter (\<lambda>c. c \<noteq> CHR ''-'') ?name = ''000121390019005388''" by simp
  from C5_archive_url [of "?folder @ ''/'' @ ?name @ ''.txt''"] n
  have a: "archive_url (?folder @ ''/'' @ ?name @ ''.txt'')
          = archive_url ?folder @ ''/'' @ filter (\<lambda>c. c \<noteq> CHR ''-'') ?name"
    and b: "\<not> suffix ''.txt'' (archive_url (?folder @ ''/'' @ ?name @ ''.txt''))"
    by blast+
  from a have "archive_url (?folder @ ''/'' @ ?name @ ''.txt'')
                 = ''https://www.sec.gov/Archives/edgar/data/1263364/000121390019005388''"
    unfolding f g by simp
  then show ?thesis using b by (rule conjI)
qed

text \<open>
  C5 as stated fails: removing the dash of \<open>a.t-xt\<close> after the \<open>.txt\<close> pass creates a new
  \<open>.txt\<close> suffix. The URL below is one the parser itself returns for a row whose path is
  \<open>edgar/data/1239188/a.t-xt.txt\<close>.
\<close>

theorem C5_txt_suffix_counterexample:
  "parse ''ftp://ftp.sec.gov/edgar/  h1|h2|h3|h4|h5|h6|h7|h8|1239188|GENERAL STEEL HOLDINGS INC|10-K|20190401|edgar/data/1239188/a.t-xt.txt''
     = Inr [[''1239188'', ''GENERAL STEEL HOLDINGS INC'', ''10-K'', ''20190401'',
             ''https://www.sec.gov/Archives/edgar/data/1239188/a.t-xt.txt'']]
   \<and> archive_url ''https://www.sec.gov/Archives/edgar/data/1239188/a.t-xt.txt''
        = ''https://www.sec.gov/Archives/edgar/data/1239188/a.txt''
   \<and> suffix ''.txt'' (archive_url ''https://www.sec.gov/Archives/edgar/data/1239188/a.t-xt.txt'')"
  by code_simp

section \<open>The detail page URL\<close>

text \<open>
  C6 (as amended). The detail URL is the text before the FIRST \<open>.txt\<close> of the document
  URL followed by \<open>-index.htm\<close>. So for a document URL \<open>STEM.txt\<close> in which \<open>.txt\<close> occurs
  only at the end, the result is \<open>STEM-index.htm\<close>: the trailing \<open>.txt\<close> is replaced and
  nothing else changes.
\<close>

theorem C6_file_url_archive:
  assumes "\<not> contains ''.txt'' stem"
  shows "file_url_archive (stem @ ''.txt'') = Inr (stem @ ''-index.htm'')"
proof -
  have "split ''.txt'' (stem @ ''.txt'' @ []) = stem # split ''.txt'' []"
    using assms by (rule split_txt_stem)
  then show ?thesis by (simp add: file_url_archive_def)
qed

theorem C6_file_url_archive_witness:
  "file_url_archive ''https://www.sec.gov/Archives/edgar/data/1263364/0001213900-19-005388.txt''
     = Inr ''https://www.sec.gov/Archives/edgar/data/1263364/0001213900-19-005388-index.htm''"
proof -
  have "\<not> contains ''.txt'' ''https://www.sec.gov/Archives/edgar/data/1263364/0001213900-19-005388''"
    by code_simp
  from C6_file_url_archive [OF this] show ?thesis by simp
qed

text \<open>
  C6 as stated fails when \<open>.txt\<close> also occurs earlier: everything after the first
  occurrence is dropped, and the result no longer ends in the accession number followed
  by \<open>-index.htm\<close>.
\<close>

theorem C6_earlier_txt_counterexample:
  "file_url_archive ''https://www.sec.gov/Archives/edgar/data/index.txt.d/0001213900-19-005388.txt''
     = Inr ''https://www.sec.gov/Archives/edgar/data/index-index.htm''
   \<and> \<not> suffix ''0001213900-19-005388-index.htm'' ''https://www.sec.gov/Archives/edgar/data/index-index.htm''"
  by code_simp

section \<open>The issuer folder URL\<close>

text \<open>
  C7. For every document URL that holds a path separator, the issuer folder URL is the
  URL cut at its last \<open>/\<close>, the file name after it dropped; it is a strict prefix of the
  document URL; and for a URL of the shape \<open>ROOT/CIK/ACCESSION.txt\<close> it is \<open>ROOT/CIK\<close>,
  reaching up to and including the CIK segment.
\<close>

theorem C7_company_url:
  assumes "CHR ''/'' \<in> set ref"
  shows "(\<exists>file. ref = fst (company_url ref) @ ''/'' @ file \<and> CHR ''/'' \<notin> set file)
         \<and> strict_prefix (fst (company_url ref)) ref
         \<and> (\<forall>root cik acc. ref = root @ ''/'' @ cik @ ''/'' @ acc @ ''.txt'' \<and> CHR ''/'' \<notin> set acc
              \<longrightarrow> fst (company_url ref) = root @ ''/'' @ cik)"
proof (intro conjI allI impI)
  from assms obtain base fname where d: "ref = base @ ''/'' @ fname" and n: "CHR ''/'' \<notin> set fname"
    using rpartition_decomp [of "CHR ''/''" ref] by auto
  from n have c: "fst (company_url (base @ ''/'' @ fname)) = base"
    by (rule company_url_append)
  show "\<exists>file. ref = fst (company_url ref) @ ''/'' @ file \<and> CHR ''/'' \<notin> set file"
    unfolding d c using n by blast
  show "strict_prefix (fst (company_url ref)) ref"
    unfolding d c by (simp add: strict_prefix_def)
next
  fix root cik acc
  assume a: "ref = root @ ''/'' @ cik @ ''/'' @ acc @ ''.txt'' \<and> CHR ''/'' \<notin> set acc"
  then have "CHR ''/'' \<notin> set (acc @ ''.txt'')" by simp
  then have "fst (company_url ((root @ ''/'' @ cik) @ ''/'' @ (acc @ ''.txt''))) = root @ ''/'' @ cik"
    by (rule company_url_append)
  with a show "fst (company_url ref) = root @ ''/'' @ cik" by simp
qed

theorem C7_company_url_witness:
  "fst (company_url ''https://www.sec.gov/Archives/edgar/data/1263364/0001213900-19-005388.txt'')
     = ''https://www.sec.gov/Archives/edgar/data/1263364''
   \<and> strict_prefix ''https://www.sec.gov/Archives/edgar/data/1263364''
        ''https://www.sec.gov/Archives/edgar/data/1263364/0001213900-19-005388.txt''"
proof -
  let ?ref = "''https://www.sec.gov/Archives/edgar/data/1263364/0001213900-19-005388.txt''"
  have h: "CHR ''/'' \<in> set ?ref" by simp
  have e: "?ref = ''https://www.sec.gov/Archives/edgar/data'' @ ''/'' @ ''1263364'' @ ''/'' @ ''0001213900-19-005388'' @ ''.txt''"
    by simp
  have n: "CHR ''/'' \<notin> set ''0001213900-19-005388''" by simp
  from C7_company_url [OF h] e n
  have "fst (company_url ?ref) = ''https://www.sec.gov/Archives/edgar/data'' @ ''/'' @ ''1263364''"
    by blast
  moreover from C7_company_url [OF h] have "strict_prefix (fst (company_url ?ref)) ?ref" by blast
  ultimately show ?thesis by simp
qed

section \<open>Filtering by form\<close>

text \<open>
  C8 (as amended). The filter loop visits only \<open>master_data[0:100]\<close>. For every list of
  dictionaries and every form string it returns exactly the dictionaries among the first
  hundred whose \<open>form_id\<close> equals the string (string equality, so case matters), in their
  original order; applying it twice gives the same as applying it once; and on a list of
  at most a hundred dictionaries it is the plain filter of the whole list.
\<close>

theorem C8_filter_by_form:
  "filter_by_form form recs = filter (\<lambda>d. form_id d = form) (take 100 recs)
   \<and> filter_by_form form (filter_by_form form recs) = filter_by_form form recs
   \<and> (length recs \<le> 100 \<longrightarrow> filter_by_form form recs = filter (\<lambda>d. form_id d = form) recs)"
proof -
  let ?P = "\<lambda>d. form_id d = form"
  have "length (filter ?P (take 100 recs)) \<le> length (take 100 recs)" by (rule length_filter_le)
  then have "length (filter ?P (take 100 recs)) \<le> 100" by simp
  then have "take 100 (filter ?P (take 100 recs)) = filter ?P (take 100 recs)" by simp
  then show ?thesis by (simp add: filter_by_form_filter)
qed

theorem C8_filter_by_form_witness:
  "filter_by_form ''10-K''
     [\<lparr>cik_number = ''1236397'', company_name = ''BRADBURY DANIEL'', form_id = ''4'',
        date = ''20190401'', file_url = ''a''\<rparr>,
      \<lparr>cik_number = ''1239188'', company_name = ''GENERAL STEEL HOLDINGS INC'', form_id = ''10-K'',
        date = ''20190401'', file_url = ''b''\<rparr>,
      \<lparr>cik_number = ''1'', company_name = ''LOWER CASE'', form_id = ''10-k'',
        date = ''20190401'', file_url = ''c''\<rparr>,
      \<lparr>cik_number = ''1253347'', company_name = ''COMMONWEALTH INCOME & GROWTH FUND V'', form_id = ''10-K'',
        date = ''20190401'', file_url = ''d''\<rparr>]
   = [\<lparr>cik_number = ''1239188'', company_name = ''GENERAL STEEL HOLDINGS INC'', form_id = ''10-K'',
        date = ''20190401'', file_url = ''b''\<rparr>,
      \<lparr>cik_number = ''1253347'', company_name = ''COMMONWEALTH INCOME & GROWTH FUND V'', form_id = ''10-K'',
        date = ''20190401'', file_url = ''d''\<rparr>]"
  using C8_filter_by_form [of "''10-K''"
     "[\<lparr>cik_number = ''1236397'', company_name = ''BRADBURY DANIEL'', form_id = ''4'',
        date = ''20190401'', file_url = ''a''\<rparr>,
      \<lparr>cik_number = ''1239188'', company_name = ''GENERAL STEEL HOLDINGS INC'', form_id = ''10-K'',
        date = ''20190401'', file_url = ''b''\<rparr>,
      \<lparr>cik_number = ''1'', company_name = ''LOWER CASE'', form_id = ''10-k'',
        date = ''20190401'', file_url = ''c''\<rparr>,
      \<lparr>cik_number = ''1253347'', company_name = ''COMMONWEALTH INCOME & GROWTH FUND V'', form_id = ''10-K'',
        date = ''20190401'', file_url = ''d''\<rparr>]"]
  by simp

text \<open>
  C8 as stated fails on a longer list: a 10-K dictionary at position 100 is never visited.
\<close>

theorem C8_beyond_hundred_counterexample:
  "filter_by_form ''10-K''
     (replicate 100 \<lparr>cik_number = ''1236397'', company_name = ''BRADBURY DANIEL'', form_id = ''4'',
                      date = ''20190401'', file_url = ''a''\<rparr>
      @ [\<lparr>cik_number = ''1239188'', company_name = ''GENERAL STEEL HOLDINGS INC'', form_id = ''10-K'',
           date = ''20190401'', file_url = ''b''\<rparr>]) = []
   \<and> filter (\<lambda>d. form_id d = ''10-K'')
     (replicate 100 \<lparr>cik_number = ''1236397'', company_name = ''BRADBURY DANIEL'', form_id = ''4'',
                      date = ''20190401'', file_url = ''a''\<rparr>
      @ [\<lparr>cik_number = ''1239188'', company_name = ''GENERAL STEEL HOLDINGS INC'', form_id = ''10-K'',
           date = ''20190401'', file_url = ''b''\<rparr>])
     = [\<lparr>cik_number = ''1239188'', company_name = ''GENERAL STEEL HOLDINGS INC'', form_id = ''10-K'',
           date = ''20190401'', file_url = ''b''\<rparr>]"
  by (simp add: filter_by_form_filter)

section \<open>The dictionaries keep the parsed fields\<close>

text \<open>
  C10. For every sequence of rows that parsing returns, the conversion to dictionaries
  succeeds, keeps the number of records and their order, and stores the five values of
  each row unchanged under \<open>cik_number\<close>, \<open>company_name\<close>, \<open>form_id\<close>, \<open>date\<close> and
  \<open>file_url\<close>. The last cell, which derives the three URLs from \<open>file_url\<close>, leaves
  \<open>master_data\<close> as it found it.
\<close>

theorem C10_dicts_keep_fields:
  assumes "parse raw = Inr rows"
  shows "\<exists>dicts. to_document_dicts rows = Inr dicts \<and> length dicts = length rows
           \<and> (\<forall>i<length rows.
                 cik_number (dicts ! i) = rows ! i ! 0 \<and> company_name (dicts ! i) = rows ! i ! 1
                 \<and> form_id (dicts ! i) = rows ! i ! 2 \<and> date (dicts ! i) = rows ! i ! 3
                 \<and> file_url (dicts ! i) = rows ! i ! 4)
           \<and> (\<forall>g g' urls. master_data g = dicts \<and> cell_16 g = Inr (g', urls)
                 \<longrightarrow> master_data g' = dicts)"
proof -
  let ?mk = "\<lambda>document. \<lparr>cik_number = document ! 0, company_name = document ! 1,
                form_id = document ! 2, date = document ! 3, file_url = document ! (4::nat)\<rparr>"
  from assms have "\<forall>r\<in>set rows. length r = 5" by (rule parse_five)
  then have d: "to_document_dicts rows = Inr (map ?mk rows)" by (rule to_document_dicts_map)
  have l: "length (map ?mk rows) = length rows" by simp
  have f: "\<forall>i<length rows.
             cik_number (map ?mk rows ! i) = rows ! i ! 0 \<and> company_name (map ?mk rows ! i) = rows ! i ! 1
             \<and> form_id (map ?mk rows ! i) = rows ! i ! 2 \<and> date (map ?mk rows ! i) = rows ! i ! 3
             \<and> file_url (map ?mk rows ! i) = rows ! i ! 4"
    by simp
  have c: "\<forall>g g' urls. master_data g = map ?mk rows \<and> cell_16 g = Inr (g', urls)
             \<longrightarrow> master_data g' = map ?mk rows"
    using cell_16_master_data by metis
  from d l f c show ?thesis by blast
qed

theorem C10_dicts_keep_fields_witness:
  "\<exists>dicts. to_document_dicts
        [[''1236397'', ''BRADBURY DANIEL'', ''4'', ''20190401'',
          ''https://www.sec.gov/Archives/edgar/data/1236397/0000886744-19-000047.txt'']] = Inr dicts
      \<and> length dicts = 1
      \<and> cik_number (dicts ! 0) = ''1236397'' \<and> company_name (dicts ! 0) = ''BRADBURY DANIEL''
      \<and> form_id (dicts ! 0) = ''4'' \<and> date (dicts ! 0) = ''20190401''
      \<and> file_url (dicts ! 0) = ''https://www.sec.gov/Archives/edgar/data/1236397/0000886744-19-000047.txt''"
proof -
  let ?raw = "''ftp://ftp.sec.gov/edgar/  h1|h2|h3|h4|h5|h6|h7|h8|1236397|BRADBURY DANIEL|4|20190401|edgar/data/1236397/0000886744-19-000047.txt''"
  let ?rows = "[[''1236397'', ''BRADBURY DANIEL'', ''4'', ''20190401'',
          ''https://www.sec.gov/Archives/edgar/data/1236397/0000886744-19-000047.txt'']]"
  have p: "parse ?raw = Inr ?rows" by code_simp
  from C10_dicts_keep_fields [OF p] obtain dicts where
    d: "to_document_dicts ?rows = Inr dicts" "length dicts = length ?rows"
    and f: "\<forall>i<length ?rows.
                 cik_number (dicts ! i) = ?rows ! i ! 0 \<and> company_name (dicts ! i) = ?rows ! i ! 1
                 \<and> form_id (dicts ! i) = ?rows ! i ! 2 \<and> date (dicts ! i) = ?rows ! i ! 3
                 \<and> file_url (dicts ! i) = ?rows ! i ! 4"
    by blast
  from f have "cik_number (dicts ! 0) = ?rows ! 0 ! 0 \<and> company_name (dicts ! 0) = ?rows ! 0 ! 1
                 \<and> form_id (dicts ! 0) = ?rows ! 0 ! 2 \<and> date (dicts ! 0) = ?rows ! 0 ! 3
                 \<and> file_url (dicts ! 0) = ?rows ! 0 ! 4"
    by simp
  with d show ?thesis by simp
qed

section \<open>The URL builder joins with single separators\<close>

lemma make_url_concat: "make_url url comps = url @ concat (map (\<lambda>r. ''/'' @ r) comps)"
  by (induction comps arbitrary: url) simp_all

text \<open>
  C9. For every base and every list of segments, \<open>make_url\<close> returns the base followed
  by each segment in order, each preceded by exactly one \<open>/\<close>, with the segments'
  contents untouched; with no segments it returns the base. The function is total, so it
  has no failure case.
\<close>

theorem C9_make_url_joins:
  "make_url base comps = base @ concat (map (\<lambda>r. CHR ''/'' # r) comps)
   \<and> make_url base [] = base
   \<and> length (make_url base comps) = length base + length comps + sum_list (map length comps)"
proof -
  have "length (concat (map (\<lambda>r. CHR ''/'' # r) comps)) = length comps + sum_list (map length comps)"
    by (induction comps) simp_all
  then show ?thesis
    by (simp add: make_url_concat)
qed

end
